theory Spec2Isabelle
  imports Main "HOL-Library.Multiset"
begin

section \<open>The interactive prompts of bin/cli.js\<close>

text \<open>
  The two prompts of \<^verbatim>\<open>bin/cli.js\<close>, \<^verbatim>\<open>multiselect(options)\<close> and
  \<^verbatim>\<open>confirm(question)\<close>, are event handlers over \<^verbatim>\<open>process.stdin\<close> and
  \<^verbatim>\<open>process.stdout\<close>. Every call on the two streams is recorded, in the order the code
  makes it, in a trace of effects; the closure variables \<^verbatim>\<open>cursor\<close> and
  \<^verbatim>\<open>selected\<close> are the fields of a state record; a chunk delivered by the
  \<^verbatim>\<open>data\<close> event is a string, and the handler is a function from the chunk and the
  state to an outcome.
\<close>

subsection \<open>Data\<close>

text \<open>An element of \<^verbatim>\<open>options\<close>: \<^verbatim>\<open>{ key, name, desc }\<close> (built in \<^verbatim>\<open>main\<close>).\<close>

record opt =
  key :: string
  name :: string
  desc :: string

text \<open>The calls the prompts make on \<^verbatim>\<open>stdout\<close> and \<^verbatim>\<open>stdin\<close>.\<close>

datatype effect =
    Write string
  | MoveCursor int int
  | ClearLine int
  | SetRawMode bool
  | Resume
  | Pause
  | SetEncoding string
  | AddListener
  | RemoveListener

text \<open>
  What a handler call, or a whole prompt, comes to: still waiting for keys, the promise
  resolved with a value, the process ended by \<^verbatim>\<open>process.exit(code)\<close>, or an exception
  thrown inside the handler. Each carries the state reached.
\<close>

datatype js_error = TypeError

datatype ('s, 'r) outcome =
    Pending (state_of: 's)
  | Resolved 'r (state_of: 's)
  | Exited int (state_of: 's)
  | Threw js_error (state_of: 's)

fun resolved_value :: "('s, 'r) outcome \<Rightarrow> 'r option" where
  "resolved_value (Resolved r s) = Some r"
| "resolved_value other = None"

fun exit_code :: "('s, 'r) outcome \<Rightarrow> int option" where
  "exit_code (Exited c s) = Some c"
| "exit_code other = None"

text \<open>
  The \<^verbatim>\<open>data\<close> listener is called once per chunk for as long as it is registered and the
  process lives: the first chunk whose handling resolves, exits or throws ends the run.
\<close>

fun run_keys :: "(string \<Rightarrow> 's \<Rightarrow> ('s, 'r) outcome) \<Rightarrow> 's \<Rightarrow> string list \<Rightarrow> ('s, 'r) outcome" where
  "run_keys h s [] = Pending s"
| "run_keys h s (k # ks) = (case h k s of Pending s' \<Rightarrow> run_keys h s' ks | other \<Rightarrow> other)"

text \<open>Raw mode after a trace, starting from cooked mode: the last \<^verbatim>\<open>setRawMode\<close> decides.\<close>

fun raw_mode_from :: "bool \<Rightarrow> effect list \<Rightarrow> bool" where
  "raw_mode_from b [] = b"
| "raw_mode_from b (SetRawMode b' # es) = raw_mode_from b' es"
| "raw_mode_from b (e # es) = raw_mode_from b es"

definition raw_mode :: "effect list \<Rightarrow> bool" where
  "raw_mode es = raw_mode_from False es"

subsection \<open>Key chunks and escape sequences\<close>

definition KEY_INTERRUPT :: string where
  "KEY_INTERRUPT = [CHR 0x03]"

definition KEY_UP :: string where
  "KEY_UP = [CHR 0x1B, CHR ''['', CHR ''A'']"

definition KEY_DOWN :: string where
  "KEY_DOWN = [CHR 0x1B, CHR ''['', CHR ''B'']"

definition KEY_SPACE :: string where
  "KEY_SPACE = '' ''"

definition KEY_ENTER :: string where
  "KEY_ENTER = [CHR 0x0D]"

definition HIDE_CURSOR :: string where
  "HIDE_CURSOR = CHR 0x1B # ''[?25l''"

definition SHOW_CURSOR :: string where
  "SHOW_CURSOR = CHR 0x1B # ''[?25h''"

subsection \<open>multiselect\<close>

text \<open>
  \<^verbatim>\<open>cursor\<close> is a JavaScript number, here an \<open>int\<close>. \<^verbatim>\<open>selected\<close> is a JavaScript
  \<^verbatim>\<open>Set\<close>, which iterates in insertion order: a list without duplicates, \<^verbatim>\<open>add\<close> of an
  absent value appends, \<^verbatim>\<open>delete\<close> removes. \<open>out\<close> is the trace of effects so far.
\<close>

record ms_state =
  cursor :: int
  selected :: "int list"
  out :: "effect list"

definition set_add :: "int \<Rightarrow> int list \<Rightarrow> int list" where
  "set_add i xs = (if i \<in> set xs then xs else xs @ [i])"

definition set_delete :: "int \<Rightarrow> int list \<Rightarrow> int list" where
  "set_delete i xs = removeAll i xs"

text \<open>One line of \<^verbatim>\<open>render\<close>; the glyphs are written as their UTF-8 bytes.\<close>

definition render_line :: "ms_state \<Rightarrow> int \<Rightarrow> opt \<Rightarrow> string" where
  "render_line s i opt =
     (let isSelected = (i \<in> set (selected s));
          isCursor = (i = cursor s);
          checkbox = (if isSelected
                      then CHR 0x1B # ''[32m'' @ [CHR 0xE2, CHR 0x97, CHR 0x89] @ CHR 0x1B # ''[0m''
                      else CHR 0x1B # ''[2m'' @ [CHR 0xE2, CHR 0x97, CHR 0xAF] @ CHR 0x1B # ''[0m'');
          pointer = (if isCursor
                     then CHR 0x1B # ''[36m'' @ [CHR 0xE2, CHR 0x9D, CHR 0xAF] @ CHR 0x1B # ''[0m''
                     else '' '');
          label = (if isCursor then CHR 0x1B # ''[1m'' @ name opt @ CHR 0x1B # ''[0m'' else name opt);
          descr = CHR 0x1B # ''[2m- '' @ desc opt @ CHR 0x1B # ''[0m''
      in pointer @ '' '' @ checkbox @ '' '' @ label @ '' '' @ descr @ [CHR 0x0A])"

fun render_rows :: "ms_state \<Rightarrow> int \<Rightarrow> opt list \<Rightarrow> effect list" where
  "render_rows s i [] = []"
| "render_rows s i (opt # rest) = ClearLine 0 # Write (render_line s i opt) # render_rows s (i + 1) rest"

definition render :: "opt list \<Rightarrow> ms_state \<Rightarrow> ms_state" where
  "render options s =
     s\<lparr>out := out s @ MoveCursor 0 (- int (length options)) # render_rows s 0 options\<rparr>"

text \<open>
  \<^verbatim>\<open>Array.from(selected).map((i) => options[i].key)\<close>: \<^verbatim>\<open>options[i]\<close> is
  \<^verbatim>\<open>undefined\<close> when \<open>i\<close> is not an index of the array, and reading \<^verbatim>\<open>.key\<close> of
  it throws a TypeError.
\<close>

fun lookup_keys :: "opt list \<Rightarrow> int list \<Rightarrow> string list option" where
  "lookup_keys options [] = Some []"
| "lookup_keys options (i # rest) =
     (if 0 \<le> i \<and> i < int (length options)
      then map_option (Cons (key (options ! nat i))) (lookup_keys options rest)
      else None)"

text \<open>The body of \<^verbatim>\<open>multiselect\<close> up to and including \<^verbatim>\<open>stdin.on("data", handleKey)\<close>.\<close>

definition multiselect_start :: "opt list \<Rightarrow> ms_state" where
  "multiselect_start options =
     (let s0 = \<lparr>cursor = 0, selected = [0], out = [Write HIDE_CURSOR]\<rparr>;
          s1 = s0\<lparr>out := out s0 @ [Write (concat (replicate (length options) [CHR 0x0A]))]\<rparr>;
          s2 = render options s1
      in s2\<lparr>out := out s2 @ [SetRawMode True, Resume, SetEncoding ''utf8'', AddListener]\<rparr>)"

text \<open>
  \<^verbatim>\<open>handleKey\<close>: the five \<^verbatim>\<open>if\<close> statements run one after the other on the same
  chunk; \<^verbatim>\<open>process.exit(1)\<close> does not return.
\<close>

definition handleKey :: "opt list \<Rightarrow> string \<Rightarrow> ms_state \<Rightarrow> (ms_state, string list) outcome" where
  "handleKey options k s =
     (if k = KEY_INTERRUPT then Exited 1 (s\<lparr>out := out s @ [Write SHOW_CURSOR]\<rparr>)
      else
        let s1 = (if k = KEY_UP
                  then render options
                         (s\<lparr>cursor := (if cursor s > 0 then cursor s - 1 else int (length options) - 1)\<rparr>)
                  else s);
            s2 = (if k = KEY_DOWN
                  then render options
                         (s1\<lparr>cursor := (if cursor s1 < int (length options) - 1 then cursor s1 + 1 else 0)\<rparr>)
                  else s1);
            s3 = (if k = KEY_SPACE
                  then render options
                         (if cursor s2 \<in> set (selected s2)
                          then s2\<lparr>selected := set_delete (cursor s2) (selected s2)\<rparr>
                          else s2\<lparr>selected := set_add (cursor s2) (selected s2)\<rparr>)
                  else s2)
        in if k = KEY_ENTER
           then (let s4 = s3\<lparr>out := out s3 @ [RemoveListener, SetRawMode False, Pause, Write SHOW_CURSOR]\<rparr>
                 in case lookup_keys options (selected s4) of
                      None \<Rightarrow> Threw TypeError s4
                    | Some ks \<Rightarrow> Resolved ks s4)
           else Pending s3)"

definition multiselect :: "opt list \<Rightarrow> string list \<Rightarrow> (ms_state, string list) outcome" where
  "multiselect options keys = run_keys (handleKey options) (multiselect_start options) keys"

subsection \<open>confirm\<close>

text \<open>
  \<^verbatim>\<open>key.toLowerCase()\<close> on the ASCII letters; the comparisons of \<^verbatim>\<open>confirm\<close> are with
  \<^verbatim>\<open>"y"\<close> and \<^verbatim>\<open>"n"\<close>, and no string other than the letter and its capital lowers to
  either.
\<close>

definition lower_char :: "char \<Rightarrow> char" where
  "lower_char c = (let n = (of_char c :: nat) in if 65 \<le> n \<and> n \<le> 90 then char_of (n + 32) else c)"

definition toLowerCase :: "string \<Rightarrow> string" where
  "toLowerCase k = map lower_char k"

text \<open>The state of \<^verbatim>\<open>confirm\<close> is the trace alone.\<close>

definition confirm_start :: "string \<Rightarrow> effect list" where
  "confirm_start question =
     [Write (question @ '' '' @ CHR 0x1B # ''[2m(Y/n)'' @ CHR 0x1B # ''[0m ''),
      SetRawMode True, Resume, SetEncoding ''utf8'', AddListener]"

definition cleanup :: "bool \<Rightarrow> effect list \<Rightarrow> (effect list, bool) outcome" where
  "cleanup result tr = Resolved result (tr @ [RemoveListener, SetRawMode False, Pause])"

definition confirm_handleKey :: "string \<Rightarrow> effect list \<Rightarrow> (effect list, bool) outcome" where
  "confirm_handleKey k tr =
     (if k = KEY_INTERRUPT then Exited 1 tr
      else if k = KEY_ENTER \<or> toLowerCase k = ''y''
      then cleanup True (tr @ [Write (CHR 0x1B # ''[32mYes'' @ CHR 0x1B # ''[0m'' @ [CHR 0x0A])])
      else if toLowerCase k = ''n''
      then cleanup False (tr @ [Write (CHR 0x1B # ''[31mNo'' @ CHR 0x1B # ''[0m'' @ [CHR 0x0A])])
      else Pending tr)"

definition confirm :: "string \<Rightarrow> string list \<Rightarrow> (effect list, bool) outcome" where
  "confirm question keys = run_keys confirm_handleKey (confirm_start question) keys"

subsection \<open>The option list of main\<close>

text \<open>
  \<^verbatim>\<open>choices\<close> as \<^verbatim>\<open>main\<close> builds it from \<^verbatim>\<open>TEMPLATES\<close>: one option per template,
  \<^verbatim>\<open>name\<close> equal to \<^verbatim>\<open>key\<close>.
\<close>

definition choices :: "opt list" where
  "choices =
     [\<lparr>key = ''pre-commit'', name = ''pre-commit'',
       desc = ''Runs before creating a commit (tests, linting)''\<rparr>,
      \<lparr>key = ''pre-push'', name = ''pre-push'',
       desc = ''Runs before pushing (e.g., protect main branch)''\<rparr>,
      \<lparr>key = ''commit-msg'', name = ''commit-msg'',
       desc = ''Validates the commit message (Conventional Commits)''\<rparr>]"

subsection \<open>The specification's formulas\<close>

text \<open>
  The transitions as the specification words them, to be compared with the code:
  \<open>Up\<close> is \<open>(cursor - 1 + N) mod N\<close>, \<open>Down\<close> is \<open>(cursor + 1) mod N\<close>, and the result
  of \<open>Enter\<close> is the projection of the selected indices onto the \<open>key\<close> fields in ascending
  index order.
\<close>

definition spec_up :: "int \<Rightarrow> int \<Rightarrow> int" where
  "spec_up N c = (c - 1 + N) mod N"

definition spec_down :: "int \<Rightarrow> int \<Rightarrow> int" where
  "spec_down N c = (c + 1) mod N"

definition ascending_projection :: "opt list \<Rightarrow> int list \<Rightarrow> string list" where
  "ascending_projection options sel = map (\<lambda>i. key (options ! nat i)) (sort (remdups sel))"

subsection \<open>Observations on outcomes and states\<close>

fun is_pending :: "('s, 'r) outcome \<Rightarrow> bool" where
  "is_pending (Pending s) = True"
| "is_pending other = False"

fun thrown_error :: "('s, 'r) outcome \<Rightarrow> js_error option" where
  "thrown_error (Threw e s) = Some e"
| "thrown_error other = None"

text \<open>The cursor and every selected index are indices of \<^verbatim>\<open>options\<close>.\<close>

definition cursor_in_range :: "opt list \<Rightarrow> ms_state \<Rightarrow> bool" where
  "cursor_in_range options s \<longleftrightarrow> 0 \<le> cursor s \<and> cursor s < int (length options)"

definition selected_in_range :: "opt list \<Rightarrow> ms_state \<Rightarrow> bool" where
  "selected_in_range options s \<longleftrightarrow> list_all (\<lambda>i. 0 \<le> i \<and> i < int (length options)) (selected s)"

definition indices_in_range :: "opt list \<Rightarrow> ms_state \<Rightarrow> bool" where
  "indices_in_range options s \<longleftrightarrow> cursor_in_range options s \<and> selected_in_range options s"

text \<open>
  Between \<^verbatim>\<open>setRawMode(true)\<close> and \<^verbatim>\<open>setRawMode(false)\<close>: raw mode was set once,
  never reset, and is on.
\<close>

definition session_open :: "effect list \<Rightarrow> bool" where
  "session_open tr \<longleftrightarrow>
     count_list tr (SetRawMode True) = 1 \<and> count_list tr (SetRawMode False) = 0 \<and> raw_mode tr"

text \<open>After \<^verbatim>\<open>setRawMode(false)\<close>: raw mode was set once, reset once, and is off.\<close>

definition session_released :: "effect list \<Rightarrow> bool" where
  "session_released tr \<longleftrightarrow>
     count_list tr (SetRawMode True) = 1 \<and> count_list tr (SetRawMode False) = 1 \<and> \<not> raw_mode tr"

text \<open>The question \<^verbatim>\<open>main\<close> asks with \<^verbatim>\<open>confirm\<close>.\<close>

definition stage_question :: string where
  "stage_question = CHR 0x1B # ''[36m?'' @ CHR 0x1B # ''[0m Do you want to stage these files to Git?''"

section \<open>Basic facts\<close>

lemmas key_defs = KEY_INTERRUPT_def KEY_UP_def KEY_DOWN_def KEY_SPACE_def KEY_ENTER_def

lemma keys_distinct:
  "KEY_UP \<noteq> KEY_DOWN" "KEY_UP \<noteq> KEY_SPACE" "KEY_UP \<noteq> KEY_ENTER" "KEY_UP \<noteq> KEY_INTERRUPT"
  "KEY_DOWN \<noteq> KEY_SPACE" "KEY_DOWN \<noteq> KEY_ENTER" "KEY_DOWN \<noteq> KEY_INTERRUPT"
  "KEY_SPACE \<noteq> KEY_ENTER" "KEY_SPACE \<noteq> KEY_INTERRUPT" "KEY_ENTER \<noteq> KEY_INTERRUPT"
  by (simp_all add: key_defs)

lemma render_fields [simp]:
  "cursor (render options s) = cursor s" "selected (render options s) = selected s"
  by (simp_all add: render_def)

text \<open>The handler, key by key: at most one of its \<^verbatim>\<open>if\<close> statements fires.\<close>

lemma handleKey_up:
  "handleKey options KEY_UP s =
     Pending (render options (s\<lparr>cursor := (if cursor s > 0 then cursor s - 1 else int (length options) - 1)\<rparr>))"
  by (simp add: handleKey_def keys_distinct)

lemma handleKey_down:
  "handleKey options KEY_DOWN s =
     Pending (render options (s\<lparr>cursor := (if cursor s < int (length options) - 1 then cursor s + 1 else 0)\<rparr>))"
  using keys_distinct by (simp add: handleKey_def)

lemma handleKey_space:
  "handleKey options KEY_SPACE s =
     Pending (render options (if cursor s \<in> set (selected s)
                              then s\<lparr>selected := set_delete (cursor s) (selected s)\<rparr>
                              else s\<lparr>selected := set_add (cursor s) (selected s)\<rparr>))"
  using keys_distinct by (simp add: handleKey_def)

lemma handleKey_enter:
  "handleKey options KEY_ENTER s =
     (case lookup_keys options (selected s) of
        None \<Rightarrow> Threw TypeError (s\<lparr>out := out s @ [RemoveListener, SetRawMode False, Pause, Write SHOW_CURSOR]\<rparr>)
      | Some ks \<Rightarrow> Resolved ks (s\<lparr>out := out s @ [RemoveListener, SetRawMode False, Pause, Write SHOW_CURSOR]\<rparr>))"
  using keys_distinct by (simp add: handleKey_def Let_def)

lemma handleKey_interrupt:
  "handleKey options KEY_INTERRUPT s = Exited 1 (s\<lparr>out := out s @ [Write SHOW_CURSOR]\<rparr>)"
  by (simp add: handleKey_def)

lemma handleKey_other:
  "k \<noteq> KEY_INTERRUPT \<Longrightarrow> k \<noteq> KEY_UP \<Longrightarrow> k \<noteq> KEY_DOWN \<Longrightarrow> k \<noteq> KEY_SPACE \<Longrightarrow> k \<noteq> KEY_ENTER \<Longrightarrow>
   handleKey options k s = Pending s"
  by (simp add: handleKey_def)

section \<open>The ring of cursor positions\<close>

text \<open>
  Claim C6. For every \<open>N \<ge> 1\<close> and every cursor in \<open>[0, N)\<close>, the conditional wrap-around of
  the code on Up is the specification's \<open>(cursor - 1 + N) mod N\<close>, and the one on Down is
  \<open>(cursor + 1) mod N\<close>: the handler leaves the prompt pending, in the state repainted with
  the cursor the formula gives.
\<close>

theorem ring_formulas:
  assumes "1 \<le> length options" and "0 \<le> cursor s" and "cursor s < int (length options)"
  shows "handleKey options KEY_UP s =
           Pending (render options (s\<lparr>cursor := spec_up (int (length options)) (cursor s)\<rparr>))
       \<and> handleKey options KEY_DOWN s =
           Pending (render options (s\<lparr>cursor := spec_down (int (length options)) (cursor s)\<rparr>))"
proof -
  let ?N = "int (length options)"
  have up: "(if cursor s > 0 then cursor s - 1 else ?N - 1) = spec_up ?N (cursor s)"
  proof (cases "cursor s > 0")
    case True
    then have "(cursor s - 1 + ?N) mod ?N = cursor s - 1"
      using assms by simp
    with True show ?thesis by (simp add: spec_up_def)
  next
    case False
    with assms have c0: "cursor s = 0" by simp
    have "0 < ?N" using assms(2,3) by linarith
    then have "(- 1) mod ?N = ?N - 1" by (rule zmod_minus1)
    with c0 show ?thesis by (simp add: spec_up_def)
  qed
  have down: "(if cursor s < ?N - 1 then cursor s + 1 else 0) = spec_down ?N (cursor s)"
  proof (cases "cursor s < ?N - 1")
    case True
    then show ?thesis using assms by (simp add: spec_down_def)
  next
    case False
    with assms have "cursor s + 1 = ?N" by simp
    then show ?thesis using False by (simp add: spec_down_def)
  qed
  show ?thesis
    unfolding handleKey_up handleKey_down up down by simp
qed

theorem ring_formulas_witness:
  "handleKey choices KEY_UP \<lparr>cursor = 0, selected = [0], out = []\<rparr> =
     Pending (render choices \<lparr>cursor = 2, selected = [0], out = []\<rparr>)
   \<and> handleKey choices KEY_DOWN \<lparr>cursor = 0, selected = [0], out = []\<rparr> =
     Pending (render choices \<lparr>cursor = 1, selected = [0], out = []\<rparr>)"
  using ring_formulas [of choices "\<lparr>cursor = 0, selected = [0], out = []\<rparr>"]
  by (simp add: choices_def spec_up_def spec_down_def)

lemma run_keys_append:
  "run_keys h s (ks @ ks') = (case run_keys h s ks of Pending s' \<Rightarrow> run_keys h s' ks' | other \<Rightarrow> other)"
  by (induction ks arbitrary: s) (auto split: outcome.splits)

lemma step_up_in_range:
  assumes "cursor_in_range options s"
  shows "cursor_in_range options
           (render options (s\<lparr>cursor := (if cursor s > 0 then cursor s - 1 else int (length options) - 1)\<rparr>))"
  using assms by (auto simp: cursor_in_range_def)

lemma step_down_in_range:
  assumes "cursor_in_range options s"
  shows "cursor_in_range options
           (render options (s\<lparr>cursor := (if cursor s < int (length options) - 1 then cursor s + 1 else 0)\<rparr>))"
  using assms by (auto simp: cursor_in_range_def)

lemma up_down_keys_in_range:
  "cursor_in_range options s \<Longrightarrow> set keys \<subseteq> {KEY_UP, KEY_DOWN} \<Longrightarrow>
   is_pending (run_keys (handleKey options) s keys)
   \<and> cursor_in_range options (state_of (run_keys (handleKey options) s keys))"
proof (induction keys arbitrary: s)
  case Nil
  then show ?case by simp
next
  case (Cons k keys)
  from Cons.prems(2) have k: "k = KEY_UP \<or> k = KEY_DOWN" and rest: "set keys \<subseteq> {KEY_UP, KEY_DOWN}"
    by auto
  from k show ?case
  proof
    assume "k = KEY_UP"
    then show ?thesis
      using Cons.IH [OF step_up_in_range [OF Cons.prems(1)] rest]
      by (simp add: handleKey_up)
  next
    assume "k = KEY_DOWN"
    then show ?thesis
      using Cons.IH [OF step_down_in_range [OF Cons.prems(1)] rest]
      by (simp add: handleKey_down)
  qed
qed

text \<open>
  Claim C5. For every option count \<open>N \<ge> 1\<close> and every starting cursor in \<open>[0, N)\<close>, any
  finite sequence of Up and Down keys leaves the prompt pending with a cursor that still
  satisfies \<open>0 \<le> cursor < N\<close>.
\<close>

theorem cursor_stays_in_range:
  assumes "1 \<le> length options" and "0 \<le> cursor s" and "cursor s < int (length options)"
    and "set keys \<subseteq> {KEY_UP, KEY_DOWN}"
  shows "is_pending (run_keys (handleKey options) s keys)
       \<and> 0 \<le> cursor (state_of (run_keys (handleKey options) s keys))
       \<and> cursor (state_of (run_keys (handleKey options) s keys)) < int (length options)"
proof -
  have "cursor_in_range options s"
    using assms(2,3) by (simp add: cursor_in_range_def)
  from up_down_keys_in_range [OF this assms(4)] show ?thesis
    by (simp add: cursor_in_range_def)
qed

theorem cursor_stays_in_range_witness:
  "is_pending (run_keys (handleKey choices) \<lparr>cursor = 2, selected = [0], out = []\<rparr>
                 [KEY_DOWN, KEY_UP, KEY_UP, KEY_UP, KEY_UP])
   \<and> 0 \<le> cursor (state_of (run_keys (handleKey choices) \<lparr>cursor = 2, selected = [0], out = []\<rparr>
                               [KEY_DOWN, KEY_UP, KEY_UP, KEY_UP, KEY_UP]))
   \<and> cursor (state_of (run_keys (handleKey choices) \<lparr>cursor = 2, selected = [0], out = []\<rparr>
                           [KEY_DOWN, KEY_UP, KEY_UP, KEY_UP, KEY_UP])) < 3"
  using cursor_stays_in_range [of choices "\<lparr>cursor = 2, selected = [0], out = []\<rparr>"
      "[KEY_DOWN, KEY_UP, KEY_UP, KEY_UP, KEY_UP]"]
  by (simp add: choices_def)

lemma down_iterated:
  "cursor_in_range options s \<Longrightarrow>
   is_pending (run_keys (handleKey options) s (replicate n KEY_DOWN))
   \<and> cursor (state_of (run_keys (handleKey options) s (replicate n KEY_DOWN)))
       = (cursor s + int n) mod int (length options)
   \<and> selected (state_of (run_keys (handleKey options) s (replicate n KEY_DOWN))) = selected s"
proof (induction n arbitrary: s)
  case 0
  then show ?case by (simp add: cursor_in_range_def)
next
  case (Suc n)
  let ?N = "int (length options)"
  let ?s' = "render options (s\<lparr>cursor := (if cursor s < ?N - 1 then cursor s + 1 else 0)\<rparr>)"
  have c': "cursor ?s' = (cursor s + 1) mod ?N"
  proof (cases "cursor s < ?N - 1")
    case True
    then show ?thesis using Suc.prems by (simp add: cursor_in_range_def)
  next
    case False
    with Suc.prems have "cursor s + 1 = ?N" by (simp add: cursor_in_range_def)
    then show ?thesis using False by simp
  qed
  have "((cursor s + 1) mod ?N + int n) mod ?N = (cursor s + 1 + int n) mod ?N"
    by (rule mod_add_left_eq)
  then have "(cursor ?s' + int n) mod ?N = (cursor s + int (Suc n)) mod ?N"
    unfolding c' by (simp add: add.commute add.left_commute)
  moreover have "selected ?s' = selected s" by simp
  ultimately show ?case
    using Suc.IH [OF step_down_in_range [OF Suc.prems]]
    by (simp add: handleKey_down)
qed

text \<open>
  Claim C7. For every \<open>N \<ge> 1\<close> and every starting cursor in \<open>[0, N)\<close>, \<open>N\<close> Down keys in
  a row leave the prompt pending with the cursor back at its starting value (and the
  selection untouched).
\<close>

theorem down_full_circle:
  assumes "1 \<le> length options" and "0 \<le> cursor s" and "cursor s < int (length options)"
  shows "is_pending (run_keys (handleKey options) s (replicate (length options) KEY_DOWN))
       \<and> cursor (state_of (run_keys (handleKey options) s (replicate (length options) KEY_DOWN))) = cursor s
       \<and> selected (state_of (run_keys (handleKey options) s (replicate (length options) KEY_DOWN))) = selected s"
proof -
  have "cursor_in_range options s"
    using assms(2,3) by (simp add: cursor_in_range_def)
  from down_iterated [OF this, of "length options"] show ?thesis
    using assms(2,3) by simp
qed

theorem down_full_circle_witness:
  "cursor (state_of (run_keys (handleKey choices) \<lparr>cursor = 1, selected = [0], out = []\<rparr>
                      [KEY_DOWN, KEY_DOWN, KEY_DOWN])) = 1"
  using down_full_circle [of choices "\<lparr>cursor = 1, selected = [0], out = []\<rparr>"]
  by (simp add: choices_def)

section \<open>Toggling the selection\<close>

lemma set_set_add [simp]: "set (set_add i xs) = insert i (set xs)"
  by (auto simp: set_add_def)

lemma set_set_delete [simp]: "set (set_delete i xs) = set xs - {i}"
  by (simp add: set_delete_def)

text \<open>
  Claim C8. A single Space adds the cursor index to the selected set if it is absent and
  removes it if it is present, leaving the cursor where it is; two Space keys at the same
  cursor give back the selected set there was before.
\<close>

theorem space_involution:
  "is_pending (handleKey options KEY_SPACE s)
   \<and> cursor (state_of (handleKey options KEY_SPACE s)) = cursor s
   \<and> set (selected (state_of (handleKey options KEY_SPACE s)))
       = (if cursor s \<in> set (selected s) then set (selected s) - {cursor s}
          else insert (cursor s) (set (selected s)))
   \<and> is_pending (run_keys (handleKey options) s [KEY_SPACE, KEY_SPACE])
   \<and> cursor (state_of (run_keys (handleKey options) s [KEY_SPACE, KEY_SPACE])) = cursor s
   \<and> set (selected (state_of (run_keys (handleKey options) s [KEY_SPACE, KEY_SPACE]))) = set (selected s)"
  by (auto simp: handleKey_space)

section \<open>The confirm prompt\<close>

lemma lower_char_eq_iff:
  assumes "97 \<le> (of_char l :: nat)" and "(of_char l :: nat) \<le> 122"
  shows "lower_char c = l \<longleftrightarrow> c = l \<or> c = char_of (of_char l - 32 :: nat)"
proof -
  let ?n = "of_char c :: nat"
  let ?m = "of_char l :: nat"
  show ?thesis
  proof (cases "65 \<le> ?n \<and> ?n \<le> 90")
    case True
    then have lc: "lower_char c = char_of (?n + 32)"
      by (simp add: lower_char_def)
    have "char_of (?n + 32) = l \<longleftrightarrow> (?n + 32) mod 256 = ?m"
      by (simp add: char_of_eq_iff take_bit_eq_mod)
    also have "\<dots> \<longleftrightarrow> ?n = ?m - 32"
      using True assms by auto
    also have "\<dots> \<longleftrightarrow> c = char_of (?m - 32)"
    proof
      assume "?n = ?m - 32"
      then have "char_of ?n = (char_of (?m - 32) :: char)" by simp
      then show "c = char_of (?m - 32)" by simp
    next
      assume "c = char_of (?m - 32)"
      then have "?n = (?m - 32) mod 256" by simp
      then show "?n = ?m - 32" using assms by simp
    qed
    finally have "lower_char c = l \<longleftrightarrow> c = char_of (?m - 32)"
      using lc by simp
    moreover have "c \<noteq> l" using True assms by auto
    ultimately show ?thesis by simp
  next
    case False
    then have lc: "lower_char c = c"
      by (auto simp: lower_char_def)
    have "c \<noteq> char_of (?m - 32)"
    proof
      assume "c = char_of (?m - 32)"
      then have "?n = (?m - 32) mod 256" by simp
      then have "?n = ?m - 32" using assms by simp
      with False assms show False by auto
    qed
    with lc show ?thesis by simp
  qed
qed

lemma toLowerCase_y: "toLowerCase k = ''y'' \<longleftrightarrow> k = ''y'' \<or> k = ''Y''"
proof -
  have up: "char_of (89::nat) = CHR ''Y''"
    by (simp add: char_of_eq_iff take_bit_eq_mod)
  have "lower_char c = CHR ''y'' \<longleftrightarrow> c = CHR ''y'' \<or> c = CHR ''Y''" for c
    using lower_char_eq_iff [of "CHR ''y''" c] by (simp add: up)
  then show ?thesis
    by (cases k) (auto simp: toLowerCase_def)
qed

lemma toLowerCase_n: "toLowerCase k = ''n'' \<longleftrightarrow> k = ''n'' \<or> k = ''N''"
proof -
  have up: "char_of (78::nat) = CHR ''N''"
    by (simp add: char_of_eq_iff take_bit_eq_mod)
  have "lower_char c = CHR ''n'' \<longleftrightarrow> c = CHR ''n'' \<or> c = CHR ''N''" for c
    using lower_char_eq_iff [of "CHR ''n''" c] by (simp add: up)
  then show ?thesis
    by (cases k) (auto simp: toLowerCase_def)
qed

text \<open>
  Claim C9. The handler of the confirm prompt resolves to yes on Enter, \<open>y\<close> or \<open>Y\<close>, to no
  on \<open>n\<close> or \<open>N\<close>, and on every other key but the interrupt (which ends the process) it
  does nothing and stays undecided. Enter alone gives yes, \<open>n\<close> gives no, and \<open>x\<close> then
  \<open>y\<close> gives yes.
\<close>

theorem confirm_decides:
  "confirm_handleKey k tr =
     (if k = KEY_INTERRUPT then Exited 1 tr
      else if k = KEY_ENTER \<or> k = ''y'' \<or> k = ''Y''
      then Resolved True
             (tr @ [Write (CHR 0x1B # ''[32mYes'' @ CHR 0x1B # ''[0m'' @ [CHR 0x0A]),
                    RemoveListener, SetRawMode False, Pause])
      else if k = ''n'' \<or> k = ''N''
      then Resolved False
             (tr @ [Write (CHR 0x1B # ''[31mNo'' @ CHR 0x1B # ''[0m'' @ [CHR 0x0A]),
                    RemoveListener, SetRawMode False, Pause])
      else Pending tr)
   \<and> resolved_value (confirm question [KEY_ENTER]) = Some True
   \<and> resolved_value (confirm question [''n'']) = Some False
   \<and> resolved_value (confirm question [''x'', ''y'']) = Some True"
proof -
  have "resolved_value (confirm question [KEY_ENTER]) = Some True"
    using keys_distinct by (simp add: confirm_def confirm_handleKey_def cleanup_def)
  moreover have "resolved_value (confirm question [''n'']) = Some False"
    by (simp add: confirm_def confirm_handleKey_def cleanup_def toLowerCase_y toLowerCase_n key_defs)
  moreover have "resolved_value (confirm question [''x'', ''y'']) = Some True"
    by (simp add: confirm_def confirm_handleKey_def cleanup_def toLowerCase_y toLowerCase_n key_defs)
  ultimately show ?thesis
    by (simp add: confirm_handleKey_def cleanup_def toLowerCase_y toLowerCase_n)
qed

section \<open>Runs of the multi-select prompt\<close>

lemma resolved_value_Some: "resolved_value r = Some v \<longleftrightarrow> r = Resolved v (state_of r)"
  by (cases r) auto

lemma exit_code_Some: "exit_code r = Some c \<longleftrightarrow> r = Exited c (state_of r)"
  by (cases r) auto


text \<open>
  A run that is no longer pending ended at one call of the handler, in a state that every
  property kept by the pending steps holds of.
\<close>

lemma run_keys_final:
  assumes "P s"
    and "\<And>k s s'. P s \<Longrightarrow> h k s = Pending s' \<Longrightarrow> P s'"
    and "\<not> is_pending (run_keys h s ks)"
  shows "\<exists>k s0. k \<in> set ks \<and> P s0 \<and> h k s0 = run_keys h s ks"
  using assms(1,3)
proof (induction ks arbitrary: s)
  case Nil
  then show ?case by simp
next
  case (Cons k ks)
  show ?case
  proof (cases "h k s")
    case (Pending s')
    with Cons.prems(1) have "P s'" by (rule assms(2))
    moreover from Pending Cons.prems(2) have "\<not> is_pending (run_keys h s' ks)" by simp
    ultimately have "\<exists>k s0. k \<in> set ks \<and> P s0 \<and> h k s0 = run_keys h s' ks" by (rule Cons.IH)
    with Pending show ?thesis by auto
  next
    case (Resolved r s')
    with Cons.prems(1) show ?thesis by (intro exI [of _ k] exI [of _ s]) simp
  next
    case (Exited c s')
    with Cons.prems(1) show ?thesis by (intro exI [of _ k] exI [of _ s]) simp
  next
    case (Threw e s')
    with Cons.prems(1) show ?thesis by (intro exI [of _ k] exI [of _ s]) simp
  qed
qed

lemma run_keys_pending:
  assumes "P s"
    and "\<And>k s s'. P s \<Longrightarrow> h k s = Pending s' \<Longrightarrow> P s'"
    and "is_pending (run_keys h s ks)"
  shows "P (state_of (run_keys h s ks))"
  using assms(1,3)
proof (induction ks arbitrary: s)
  case Nil
  then show ?case by simp
next
  case (Cons k ks)
  then show ?case
    by (cases "h k s") (auto intro: assms(2))
qed

lemma handleKey_cases:
  obtains (interrupt) "k = KEY_INTERRUPT" | (up) "k = KEY_UP" | (down) "k = KEY_DOWN"
    | (space) "k = KEY_SPACE" | (enter) "k = KEY_ENTER"
    | (other) "k \<noteq> KEY_INTERRUPT" "k \<noteq> KEY_UP" "k \<noteq> KEY_DOWN" "k \<noteq> KEY_SPACE" "k \<noteq> KEY_ENTER"
  by blast

lemma handleKey_pendingD:
  assumes "handleKey options k s = Pending s'"
  shows "s' = render options (s\<lparr>cursor := (if cursor s > 0 then cursor s - 1 else int (length options) - 1)\<rparr>)
       \<or> s' = render options (s\<lparr>cursor := (if cursor s < int (length options) - 1 then cursor s + 1 else 0)\<rparr>)
       \<or> s' = render options (if cursor s \<in> set (selected s)
                               then s\<lparr>selected := set_delete (cursor s) (selected s)\<rparr>
                               else s\<lparr>selected := set_add (cursor s) (selected s)\<rparr>)
       \<or> s' = s"
proof (cases k rule: handleKey_cases)
  case interrupt
  with assms show ?thesis by (simp add: handleKey_interrupt)
next
  case up
  with assms show ?thesis by (simp add: handleKey_up)
next
  case down
  with assms show ?thesis by (simp add: handleKey_down)
next
  case space
  with assms show ?thesis by (simp add: handleKey_space)
next
  case enter
  with assms show ?thesis by (simp add: handleKey_enter split: option.splits)
next
  case other
  with assms show ?thesis by (simp add: handleKey_other)
qed

lemma handleKey_endD:
  assumes "\<not> is_pending (handleKey options k s)"
  shows "k = KEY_INTERRUPT \<or> k = KEY_ENTER"
  using assms
  by (cases k rule: handleKey_cases)
     (simp_all add: handleKey_up handleKey_down handleKey_space handleKey_other)

lemma lookup_keys_SomeD:
  "lookup_keys options sel = Some ks \<Longrightarrow>
   ks = map (\<lambda>i. key (options ! nat i)) sel \<and> list_all (\<lambda>i. 0 \<le> i \<and> i < int (length options)) sel"
  by (induction sel arbitrary: ks) (auto split: if_splits)

lemma lookup_keys_in_range:
  "list_all (\<lambda>i. 0 \<le> i \<and> i < int (length options)) sel \<Longrightarrow>
   lookup_keys options sel = Some (map (\<lambda>i. key (options ! nat i)) sel)"
  by (induction sel) auto

text \<open>The properties of the state that every pending step keeps.\<close>

lemma distinct_set_add: "distinct xs \<Longrightarrow> distinct (set_add i xs)"
  by (simp add: set_add_def)

lemma distinct_set_delete: "distinct xs \<Longrightarrow> distinct (set_delete i xs)"
  by (simp add: set_delete_def distinct_removeAll)

lemma handleKey_keeps_distinct:
  "distinct (selected s) \<Longrightarrow> handleKey options k s = Pending s' \<Longrightarrow> distinct (selected s')"
  by (drule handleKey_pendingD) (auto simp: distinct_set_add distinct_set_delete)

lemma handleKey_keeps_range:
  assumes "indices_in_range options s"
    and "handleKey options k s = Pending s'"
  shows "indices_in_range options s'"
proof -
  from assms(1) have c: "0 \<le> cursor s" "cursor s < int (length options)"
    and sel: "\<forall>i\<in>set (selected s). 0 \<le> i \<and> i < int (length options)"
    by (simp_all add: indices_in_range_def cursor_in_range_def selected_in_range_def list_all_iff)
  note defs = indices_in_range_def cursor_in_range_def selected_in_range_def list_all_iff
  from handleKey_pendingD [OF assms(2)] show ?thesis
  proof (elim disjE)
    assume "s' = render options (s\<lparr>cursor := (if cursor s > 0 then cursor s - 1 else int (length options) - 1)\<rparr>)"
    then show ?thesis
      using assms(1) step_up_in_range [of options s]
      by (simp add: indices_in_range_def selected_in_range_def)
  next
    assume "s' = render options (s\<lparr>cursor := (if cursor s < int (length options) - 1 then cursor s + 1 else 0)\<rparr>)"
    then show ?thesis
      using assms(1) step_down_in_range [of options s]
      by (simp add: indices_in_range_def selected_in_range_def)
  next
    assume "s' = render options (if cursor s \<in> set (selected s)
                               then s\<lparr>selected := set_delete (cursor s) (selected s)\<rparr>
                               else s\<lparr>selected := set_add (cursor s) (selected s)\<rparr>)"
    then show ?thesis using c sel by (simp add: defs)
  next
    assume "s' = s"
    then show ?thesis using assms(1) by simp
  qed
qed

lemma start_fields [simp]:
  "cursor (multiselect_start options) = 0" "selected (multiselect_start options) = [0]"
  by (simp_all add: multiselect_start_def Let_def)

lemma start_in_range:
  "1 \<le> length options \<Longrightarrow> indices_in_range options (multiselect_start options)"
  by (cases options) (simp_all add: indices_in_range_def cursor_in_range_def selected_in_range_def)

lemma pending_in_range:
  assumes "1 \<le> length options" and "is_pending (multiselect options keys)"
  shows "indices_in_range options (state_of (multiselect options keys))"
  unfolding multiselect_def
proof (rule run_keys_pending [where P = "indices_in_range options"])
  show "indices_in_range options (multiselect_start options)"
    using assms(1) by (rule start_in_range)
  show "is_pending (run_keys (handleKey options) (multiselect_start options) keys)"
    using assms(2) by (simp add: multiselect_def)
qed (rule handleKey_keeps_range)

lemma ended_in_range:
  assumes "1 \<le> length options" and "\<not> is_pending (multiselect options keys)"
  shows "\<exists>k s0. k \<in> set keys \<and> indices_in_range options s0
           \<and> handleKey options k s0 = multiselect options keys"
  unfolding multiselect_def
proof (rule run_keys_final [where P = "indices_in_range options"])
  show "indices_in_range options (multiselect_start options)"
    using assms(1) by (rule start_in_range)
  show "\<not> is_pending (run_keys (handleKey options) (multiselect_start options) keys)"
    using assms(2) by (simp add: multiselect_def)
qed (rule handleKey_keeps_range)

text \<open>
  Claim C10. For every \<open>N \<ge> 1\<close>, after any sequence of key chunks every element of the
  selected set is an index in \<open>[0, N)\<close> (whatever the run has come to), so the lookup
  \<^verbatim>\<open>options[i].key\<close> made on Enter is defined for each of them and no run ends in the
  TypeError of an undefined option.
\<close>

theorem selected_indices_in_range:
  assumes "1 \<le> length options"
  shows "list_all (\<lambda>i. 0 \<le> i \<and> i < int (length options)) (selected (state_of (multiselect options keys)))
       \<and> lookup_keys options (selected (state_of (multiselect options keys)))
           = Some (map (\<lambda>i. key (options ! nat i)) (selected (state_of (multiselect options keys))))
       \<and> thrown_error (multiselect options keys) = None"
proof -
  let ?r = "multiselect options keys"
  have "selected_in_range options (state_of ?r) \<and> thrown_error ?r = None"
  proof (cases "is_pending ?r")
    case True
    from pending_in_range [OF assms True] have "selected_in_range options (state_of ?r)"
      by (simp add: indices_in_range_def)
    moreover from True have "thrown_error ?r = None"
      by (cases ?r) auto
    ultimately show ?thesis by simp
  next
    case False
    from ended_in_range [OF assms False]
    obtain k s0 where s0: "indices_in_range options s0" and r: "handleKey options k s0 = ?r"
      by blast
    from s0 have sel: "selected_in_range options s0"
      by (simp add: indices_in_range_def)
    then have look: "lookup_keys options (selected s0) \<noteq> None"
      by (simp add: selected_in_range_def lookup_keys_in_range)
    from False r have "k = KEY_INTERRUPT \<or> k = KEY_ENTER"
      using handleKey_endD [of options k s0] by simp
    then show ?thesis
    proof
      assume "k = KEY_INTERRUPT"
      with sel show ?thesis
        unfolding r [symmetric] by (simp add: handleKey_interrupt selected_in_range_def)
    next
      assume "k = KEY_ENTER"
      with sel look show ?thesis
        unfolding r [symmetric]
        by (auto simp: handleKey_enter selected_in_range_def split: option.splits)
    qed
  qed
  then show ?thesis
    by (simp add: selected_in_range_def lookup_keys_in_range)
qed

theorem selected_indices_in_range_witness:
  "selected (state_of (multiselect choices [KEY_DOWN, KEY_SPACE, KEY_UP, KEY_UP, KEY_SPACE, KEY_ENTER]))
     = [0, 1, 2]
   \<and> list_all (\<lambda>i. 0 \<le> i \<and> i < 3)
       (selected (state_of (multiselect choices [KEY_DOWN, KEY_SPACE, KEY_UP, KEY_UP, KEY_SPACE, KEY_ENTER])))
   \<and> thrown_error (multiselect choices [KEY_DOWN, KEY_SPACE, KEY_UP, KEY_UP, KEY_SPACE, KEY_ENTER]) = None"
proof -
  have len: "1 \<le> length choices" "int (length choices) = 3"
    by (simp_all add: choices_def)
  have sel: "selected (state_of (multiselect choices [KEY_DOWN, KEY_SPACE, KEY_UP, KEY_UP, KEY_SPACE, KEY_ENTER]))
     = [0, 1, 2]"
    by code_simp
  from selected_indices_in_range [OF len(1), of "[KEY_DOWN, KEY_SPACE, KEY_UP, KEY_UP, KEY_SPACE, KEY_ENTER]"]
  show ?thesis
    unfolding len(2) using sel by simp
qed

section \<open>The result of Enter\<close>

lemma ended_distinct:
  assumes "\<not> is_pending (multiselect options keys)"
  shows "\<exists>k s0. k \<in> set keys \<and> distinct (selected s0) \<and> handleKey options k s0 = multiselect options keys"
  unfolding multiselect_def
proof (rule run_keys_final [where P = "\<lambda>s. distinct (selected s)"])
  show "distinct (selected (multiselect_start options))" by simp
  show "\<not> is_pending (run_keys (handleKey options) (multiselect_start options) keys)"
    using assms by (simp add: multiselect_def)
qed (rule handleKey_keeps_distinct)

lemma handleKey_resolvedD:
  assumes "handleKey options k s0 = Resolved ks s"
  shows "k = KEY_ENTER \<and> lookup_keys options (selected s0) = Some ks \<and> selected s = selected s0
       \<and> out s = out s0 @ [RemoveListener, SetRawMode False, Pause, Write SHOW_CURSOR]"
proof -
  from assms have "\<not> is_pending (handleKey options k s0)" by simp
  then have "k = KEY_INTERRUPT \<or> k = KEY_ENTER" by (rule handleKey_endD)
  with assms show ?thesis
    by (auto simp: handleKey_interrupt handleKey_enter split: option.splits)
qed

lemma resolved_run:
  assumes "resolved_value (multiselect options keys) = Some ks"
  shows "distinct (selected (state_of (multiselect options keys)))
       \<and> lookup_keys options (selected (state_of (multiselect options keys))) = Some ks
       \<and> KEY_ENTER \<in> set keys"
proof -
  let ?s = "state_of (multiselect options keys)"
  from assms have r: "multiselect options keys = Resolved ks ?s"
    by (simp add: resolved_value_Some)
  then have "\<not> is_pending (multiselect options keys)"
    by (cases "multiselect options keys") auto
  from ended_distinct [OF this]
  obtain k s0 where k: "k \<in> set keys" and d: "distinct (selected s0)"
    and h: "handleKey options k s0 = multiselect options keys"
    by blast
  from h r have "handleKey options k s0 = Resolved ks ?s"
    by simp
  from handleKey_resolvedD [OF this]
  have "k = KEY_ENTER" and "lookup_keys options (selected s0) = Some ks" and "selected ?s = selected s0"
    by simp_all
  with k d show ?thesis by simp
qed

text \<open>
  Claim C1, as the specification states it, fails: the result of Enter follows the
  insertion order of the JavaScript \<^verbatim>\<open>Set\<close>, not the ascending order of the indices.
  On the options of \<^verbatim>\<open>main\<close>, deselecting index 0, selecting index 2, then selecting
  index 0 again resolves to \<^verbatim>\<open>["commit-msg", "pre-commit"]\<close>, while the ascending
  projection of the selected set \<open>{2, 0}\<close> is \<^verbatim>\<open>["pre-commit", "commit-msg"]\<close>.
\<close>

theorem enter_order_counterexample:
  "resolved_value (multiselect choices
      [KEY_SPACE, KEY_DOWN, KEY_DOWN, KEY_SPACE, KEY_DOWN, KEY_SPACE, KEY_ENTER])
     = Some [''commit-msg'', ''pre-commit'']
   \<and> selected (state_of (multiselect choices
      [KEY_SPACE, KEY_DOWN, KEY_DOWN, KEY_SPACE, KEY_DOWN, KEY_SPACE, KEY_ENTER])) = [2, 0]
   \<and> ascending_projection choices [2, 0] = [''pre-commit'', ''commit-msg'']
   \<and> resolved_value (multiselect choices
      [KEY_SPACE, KEY_DOWN, KEY_DOWN, KEY_SPACE, KEY_DOWN, KEY_SPACE, KEY_ENTER])
     \<noteq> Some (ascending_projection choices (selected (state_of (multiselect choices
      [KEY_SPACE, KEY_DOWN, KEY_DOWN, KEY_SPACE, KEY_DOWN, KEY_SPACE, KEY_ENTER]))))"
  by code_simp

text \<open>
  Claim C1, amended. The selected set keeps the order of insertion: Space on a cursor
  index that is not selected appends it at the end, Space on a selected one removes it (so
  an index toggled off and on again moves to the end), and no other key changes the set.
  Over a non-empty option list, after any keys that leave the prompt pending, Enter
  resolves, and to the projection of the selected indices onto their \<open>key\<close> fields in
  that insertion order. Whenever the prompt resolves, over any option list, the value is
  that projection, the selected indices are distinct and in range, the value is a
  rearrangement of the ascending-index projection, and it equals the ascending-index
  projection when the insertion order is ascending.
\<close>

theorem enter_insertion_order:
  "selected (state_of (handleKey options k s))
     = (if k = KEY_SPACE
        then (if cursor s \<in> set (selected s)
              then removeAll (cursor s) (selected s)
              else selected s @ [cursor s])
        else selected s)
   \<and> (cursor t \<in> set (selected t) \<longrightarrow>
        selected (state_of (run_keys (handleKey options) t [KEY_SPACE, KEY_SPACE]))
          = removeAll (cursor t) (selected t) @ [cursor t])
   \<and> (1 \<le> length options1 \<and> is_pending (multiselect options1 keys1) \<longrightarrow>
        resolved_value (multiselect options1 (keys1 @ [KEY_ENTER]))
          = Some (map (\<lambda>i. key (options1 ! nat i)) (selected (state_of (multiselect options1 keys1))))
      \<and> selected (state_of (multiselect options1 (keys1 @ [KEY_ENTER])))
          = selected (state_of (multiselect options1 keys1)))
   \<and> (resolved_value (multiselect options2 keys2) = Some ks \<longrightarrow>
        ks = map (\<lambda>i. key (options2 ! nat i)) (selected (state_of (multiselect options2 keys2)))
      \<and> distinct (selected (state_of (multiselect options2 keys2)))
      \<and> list_all (\<lambda>i. 0 \<le> i \<and> i < int (length options2)) (selected (state_of (multiselect options2 keys2)))
      \<and> mset ks = mset (ascending_projection options2 (selected (state_of (multiselect options2 keys2)))))
   \<and> (resolved_value (multiselect options3 keys3) = Some ks'
        \<and> sorted (selected (state_of (multiselect options3 keys3))) \<longrightarrow>
        ks' = ascending_projection options3 (selected (state_of (multiselect options3 keys3))))"
proof (intro conjI impI)
  show "selected (state_of (handleKey options k s))
     = (if k = KEY_SPACE
        then (if cursor s \<in> set (selected s)
              then removeAll (cursor s) (selected s)
              else selected s @ [cursor s])
        else selected s)"
  proof (cases k rule: handleKey_cases)
    case interrupt
    then show ?thesis using keys_distinct by (simp add: handleKey_interrupt)
  next
    case up
    then show ?thesis using keys_distinct by (simp add: handleKey_up)
  next
    case down
    then show ?thesis using keys_distinct by (simp add: handleKey_down)
  next
    case space
    then show ?thesis by (simp add: handleKey_space set_add_def set_delete_def)
  next
    case enter
    then show ?thesis using keys_distinct by (simp add: handleKey_enter split: option.splits)
  next
    case other
    then show ?thesis by (simp add: handleKey_other)
  qed
next
  assume "cursor t \<in> set (selected t)"
  then show "selected (state_of (run_keys (handleKey options) t [KEY_SPACE, KEY_SPACE]))
          = removeAll (cursor t) (selected t) @ [cursor t]"
    by (simp add: handleKey_space set_add_def set_delete_def)
next
  assume a: "1 \<le> length options1 \<and> is_pending (multiselect options1 keys1)"
  let ?s = "state_of (multiselect options1 keys1)"
  from a have "indices_in_range options1 ?s"
    by (simp add: pending_in_range)
  then have look: "lookup_keys options1 (selected ?s) = Some (map (\<lambda>i. key (options1 ! nat i)) (selected ?s))"
    by (simp add: indices_in_range_def selected_in_range_def lookup_keys_in_range)
  from a have "is_pending (multiselect options1 keys1)"
    by simp
  then have "multiselect options1 (keys1 @ [KEY_ENTER]) = handleKey options1 KEY_ENTER ?s"
    by (cases "multiselect options1 keys1")
       (simp_all add: multiselect_def run_keys_append split: outcome.splits)
  with look
  show "resolved_value (multiselect options1 (keys1 @ [KEY_ENTER]))
          = Some (map (\<lambda>i. key (options1 ! nat i)) (selected ?s))"
    and "selected (state_of (multiselect options1 (keys1 @ [KEY_ENTER]))) = selected ?s"
    by (simp_all add: handleKey_enter)
next
  assume r: "resolved_value (multiselect options2 keys2) = Some ks"
  let ?sel = "selected (state_of (multiselect options2 keys2))"
  from resolved_run [OF r]
  have d: "distinct ?sel" and l: "lookup_keys options2 ?sel = Some ks"
    by simp_all
  from lookup_keys_SomeD [OF l]
  show ks: "ks = map (\<lambda>i. key (options2 ! nat i)) ?sel"
    and "list_all (\<lambda>i. 0 \<le> i \<and> i < int (length options2)) ?sel"
    by simp_all
  from d show "distinct ?sel" .
  from d have rd: "remdups ?sel = ?sel"
    by (rule distinct_remdups_id)
  have "mset (ascending_projection options2 ?sel)
      = image_mset (\<lambda>i. key (options2 ! nat i)) (mset ?sel)"
    by (simp add: ascending_projection_def rd)
  with ks show "mset ks = mset (ascending_projection options2 ?sel)"
    by simp
next
  assume a: "resolved_value (multiselect options3 keys3) = Some ks'
        \<and> sorted (selected (state_of (multiselect options3 keys3)))"
  let ?sel = "selected (state_of (multiselect options3 keys3))"
  from a have r: "resolved_value (multiselect options3 keys3) = Some ks'" and so: "sorted ?sel"
    by simp_all
  from resolved_run [OF r]
  have d: "distinct ?sel" and l: "lookup_keys options3 ?sel = Some ks'"
    by simp_all
  from lookup_keys_SomeD [OF l] have ks: "ks' = map (\<lambda>i. key (options3 ! nat i)) ?sel"
    by simp
  from d have rd: "remdups ?sel = ?sel"
    by (rule distinct_remdups_id)
  from so have "sort ?sel = ?sel"
    by (simp add: sort_key_id_if_sorted)
  with ks show "ks' = ascending_projection options3 ?sel"
    by (simp add: ascending_projection_def rd)
qed

theorem enter_insertion_order_witness:
  "selected (state_of (handleKey choices KEY_SPACE \<lparr>cursor = 0, selected = [2], out = []\<rparr>)) = [2, 0]
   \<and> selected (state_of (run_keys (handleKey choices) \<lparr>cursor = 0, selected = [0, 2], out = []\<rparr>
                           [KEY_SPACE, KEY_SPACE])) = [2, 0]
   \<and> is_pending (multiselect choices [KEY_SPACE, KEY_DOWN, KEY_DOWN, KEY_SPACE, KEY_DOWN, KEY_SPACE])
   \<and> selected (state_of (multiselect choices
        [KEY_SPACE, KEY_DOWN, KEY_DOWN, KEY_SPACE, KEY_DOWN, KEY_SPACE])) = [2, 0]
   \<and> resolved_value (multiselect choices
        ([KEY_SPACE, KEY_DOWN, KEY_DOWN, KEY_SPACE, KEY_DOWN, KEY_SPACE] @ [KEY_ENTER]))
       = Some [''commit-msg'', ''pre-commit'']
   \<and> mset [''commit-msg'', ''pre-commit''] = mset (ascending_projection choices [2, 0])
   \<and> resolved_value (multiselect choices [KEY_DOWN, KEY_DOWN, KEY_SPACE, KEY_ENTER])
       = Some [''pre-commit'', ''commit-msg'']
   \<and> sorted (selected (state_of (multiselect choices [KEY_DOWN, KEY_DOWN, KEY_SPACE, KEY_ENTER])))
   \<and> [''pre-commit'', ''commit-msg''] = ascending_projection choices [0, 2]"
proof -
  let ?K = "[KEY_SPACE, KEY_DOWN, KEY_DOWN, KEY_SPACE, KEY_DOWN, KEY_SPACE]"
  let ?A = "[KEY_DOWN, KEY_DOWN, KEY_SPACE, KEY_ENTER]"
  have len: "1 \<le> length choices"
    by (simp add: choices_def)
  have pend: "is_pending (multiselect choices ?K)"
    by code_simp
  have sel: "selected (state_of (multiselect choices ?K)) = [2, 0]"
    by code_simp
  have sel': "selected (state_of (multiselect choices ?A)) = [0, 2]"
    by code_simp
  have res': "resolved_value (multiselect choices ?A) = Some [''pre-commit'', ''commit-msg'']"
    by code_simp
  have keys: "choices ! 0 = \<lparr>key = ''pre-commit'', name = ''pre-commit'',
       desc = ''Runs before creating a commit (tests, linting)''\<rparr>"
    "choices ! 2 = \<lparr>key = ''commit-msg'', name = ''commit-msg'',
       desc = ''Validates the commit message (Conventional Commits)''\<rparr>"
    by (simp_all add: choices_def)
  note inst = enter_insertion_order [of choices KEY_SPACE "\<lparr>cursor = 0, selected = [2], out = []\<rparr>"
      "\<lparr>cursor = 0, selected = [0, 2], out = []\<rparr>" choices ?K
      choices "?K @ [KEY_ENTER]" "[''commit-msg'', ''pre-commit'']"
      choices ?A "[''pre-commit'', ''commit-msg'']"]
  from inst have c1: "selected (state_of (handleKey choices KEY_SPACE \<lparr>cursor = 0, selected = [2], out = []\<rparr>)) = [2, 0]"
    by simp
  from inst have c2: "selected (state_of (run_keys (handleKey choices) \<lparr>cursor = 0, selected = [0, 2], out = []\<rparr>
                           [KEY_SPACE, KEY_SPACE])) = [2, 0]"
    by simp
  from inst len pend have c3: "resolved_value (multiselect choices (?K @ [KEY_ENTER]))
       = Some (map (\<lambda>i. key (choices ! nat i)) (selected (state_of (multiselect choices ?K))))"
    by blast
  then have c3': "resolved_value (multiselect choices (?K @ [KEY_ENTER])) = Some [''commit-msg'', ''pre-commit'']"
    unfolding sel by (simp add: keys)
  from inst c3' have "mset [''commit-msg'', ''pre-commit'']
      = mset (ascending_projection choices (selected (state_of (multiselect choices (?K @ [KEY_ENTER])))))"
    by blast
  moreover from inst len pend
  have "selected (state_of (multiselect choices (?K @ [KEY_ENTER]))) = selected (state_of (multiselect choices ?K))"
    by blast
  ultimately have c4: "mset [''commit-msg'', ''pre-commit''] = mset (ascending_projection choices [2, 0])"
    by (simp add: sel)
  have so: "sorted (selected (state_of (multiselect choices ?A)))"
    unfolding sel' by simp
  from inst res' so have "[''pre-commit'', ''commit-msg'']
      = ascending_projection choices (selected (state_of (multiselect choices ?A)))"
    by blast
  then have c5: "[''pre-commit'', ''commit-msg''] = ascending_projection choices [0, 2]"
    by (simp add: sel')
  from c1 c2 pend sel c3' c4 res' so c5 show ?thesis
    by blast
qed

section \<open>The empty option list\<close>

lemma raw_mode_from_append:
  "raw_mode_from b (xs @ ys) = raw_mode_from (raw_mode_from b xs) ys"
  by (induction b xs rule: raw_mode_from.induct) auto

lemma count_render_rows [simp]: "count_list (render_rows s i opts) (SetRawMode b) = 0"
  by (induction opts arbitrary: i) auto

lemma raw_mode_from_render_rows [simp]: "raw_mode_from b (render_rows s i opts) = b"
  by (induction opts arbitrary: i) auto

lemma session_open_render: "session_open (out s) \<Longrightarrow> session_open (out (render options s))"
  by (simp add: session_open_def render_def raw_mode_def raw_mode_from_append)

lemma session_open_start: "session_open (out (multiselect_start options))"
  by (simp add: multiselect_start_def Let_def session_open_def render_def raw_mode_def
        raw_mode_from_append)

lemma lookup_keys_empty: "lookup_keys [] sel = Some ks \<Longrightarrow> sel = [] \<and> ks = []"
  by (cases sel) (auto split: if_splits)

text \<open>
  Claim C2, as the specification states it, fails: \<^verbatim>\<open>multiselect\<close> has no case for the
  empty option list. It runs the same code as for any list, so raw mode is on once the
  listener is registered, the promise is pending until a key arrives, and Enter as the
  first key does not resolve to the empty selection (the pre-selected index 0 is looked up
  in the empty list).
\<close>

theorem empty_options_counterexample:
  "raw_mode (out (multiselect_start []))
   \<and> is_pending (multiselect [] [])
   \<and> resolved_value (multiselect [] [KEY_ENTER]) = None
   \<and> thrown_error (multiselect [] [KEY_ENTER]) = Some TypeError"
  by code_simp

text \<open>
  Claim C2, amended. Called with the empty option list, the multi-select prompt enters
  raw mode and the key loop like for any other list and stays pending until keys arrive;
  whenever it then resolves, which takes an Enter key, it resolves to the empty selection,
  with nothing selected.
\<close>

theorem empty_options_run:
  "raw_mode (out (multiselect_start []))
   \<and> is_pending (multiselect [] [])
   \<and> (resolved_value (multiselect [] keys) = Some ks
        \<longrightarrow> ks = [] \<and> selected (state_of (multiselect [] keys)) = [] \<and> KEY_ENTER \<in> set keys)"
proof -
  have "raw_mode (out (multiselect_start []))"
    using session_open_start [of "[]"] by (simp add: session_open_def)
  moreover have "is_pending (multiselect [] [])"
    by (simp add: multiselect_def)
  moreover have "ks = [] \<and> selected (state_of (multiselect [] keys)) = [] \<and> KEY_ENTER \<in> set keys"
    if "resolved_value (multiselect [] keys) = Some ks"
    using resolved_run [OF that] lookup_keys_empty [of "selected (state_of (multiselect [] keys))" ks]
    by simp
  ultimately show ?thesis by blast
qed

theorem empty_options_run_witness:
  "resolved_value (multiselect [] [KEY_SPACE, KEY_ENTER]) = Some []
   \<and> selected (state_of (multiselect [] [KEY_SPACE, KEY_ENTER])) = []"
proof -
  have res: "resolved_value (multiselect [] [KEY_SPACE, KEY_ENTER]) = Some []"
    by code_simp
  from empty_options_run [of "[KEY_SPACE, KEY_ENTER]" "[]"] show ?thesis
    using res by simp
qed

section \<open>The terminal session\<close>

lemma handleKey_keeps_open:
  assumes "session_open (out s)" and "handleKey options k s = Pending s'"
  shows "session_open (out s')"
proof -
  have r: "session_open (out (render options t))" if "out t = out s" for t
    using assms(1) that session_open_render [of t options] by simp
  from handleKey_pendingD [OF assms(2)] show ?thesis
  proof (elim disjE)
    assume "s' = s"
    then show ?thesis using assms(1) by simp
  qed (auto intro!: r)
qed

lemma ended_open:
  assumes "\<not> is_pending (multiselect options keys)"
  shows "\<exists>k s0. k \<in> set keys \<and> session_open (out s0) \<and> handleKey options k s0 = multiselect options keys"
  unfolding multiselect_def
proof (rule run_keys_final [where P = "\<lambda>s. session_open (out s)"])
  show "session_open (out (multiselect_start options))"
    by (rule session_open_start)
  show "\<not> is_pending (run_keys (handleKey options) (multiselect_start options) keys)"
    using assms by (simp add: multiselect_def)
qed (rule handleKey_keeps_open)

lemma released_after_enter:
  "session_open tr \<Longrightarrow>
   session_released (tr @ [RemoveListener, SetRawMode False, Pause, Write SHOW_CURSOR])"
  by (simp add: session_open_def session_released_def raw_mode_def raw_mode_from_append)

lemma open_after_interrupt:
  "session_open tr \<Longrightarrow> session_open (tr @ [Write SHOW_CURSOR])"
  by (simp add: session_open_def raw_mode_def raw_mode_from_append)

text \<open>How a run of the multi-select prompt that is no longer pending left the terminal.\<close>

lemma ended_trace:
  assumes "\<not> is_pending (multiselect options keys)"
  shows "last (out (state_of (multiselect options keys))) = Write SHOW_CURSOR
       \<and> (case multiselect options keys of
            Exited c s \<Rightarrow> c = 1 \<and> session_open (out s)
          | other \<Rightarrow> session_released (out (state_of other)))"
proof -
  from ended_open [OF assms]
  obtain k s0 where o: "session_open (out s0)" and h: "handleKey options k s0 = multiselect options keys"
    by blast
  from assms h have "k = KEY_INTERRUPT \<or> k = KEY_ENTER"
    using handleKey_endD [of options k s0] by simp
  then show ?thesis
  proof
    assume "k = KEY_INTERRUPT"
    then show ?thesis
      unfolding h [symmetric] using open_after_interrupt [OF o]
      by (simp add: handleKey_interrupt)
  next
    assume "k = KEY_ENTER"
    then show ?thesis
      unfolding h [symmetric] using released_after_enter [OF o]
      by (simp add: handleKey_enter split: option.splits)
  qed
qed

text \<open>The confirm prompt writes nothing and changes nothing until a key decides it.\<close>

lemma confirm_handleKey_pendingD: "confirm_handleKey k tr = Pending tr' \<Longrightarrow> tr' = tr"
  by (simp add: confirm_handleKey_def cleanup_def split: if_splits)

lemma confirm_pending:
  assumes "is_pending (confirm question keys)"
  shows "state_of (confirm question keys) = confirm_start question"
  unfolding confirm_def
proof (rule run_keys_pending [where P = "\<lambda>tr. tr = confirm_start question"])
  show "is_pending (run_keys confirm_handleKey (confirm_start question) keys)"
    using assms by (simp add: confirm_def)
qed (simp_all add: confirm_handleKey_pendingD)

lemma confirm_ended:
  assumes "\<not> is_pending (confirm question keys)"
  shows "\<exists>k. k \<in> set keys \<and> confirm_handleKey k (confirm_start question) = confirm question keys"
proof -
  have "\<exists>k s0. k \<in> set keys \<and> s0 = confirm_start question
          \<and> confirm_handleKey k s0 = run_keys confirm_handleKey (confirm_start question) keys"
  proof (rule run_keys_final [where P = "\<lambda>tr. tr = confirm_start question"])
    show "\<not> is_pending (run_keys confirm_handleKey (confirm_start question) keys)"
      using assms by (simp add: confirm_def)
  qed (simp_all add: confirm_handleKey_pendingD)
  then show ?thesis by (auto simp: confirm_def)
qed

lemma confirm_start_open: "session_open (confirm_start question)"
  by (simp add: confirm_start_def session_open_def raw_mode_def)

lemma confirm_ended_trace:
  assumes "\<not> is_pending (confirm question keys)"
  shows "case confirm question keys of
           Exited c tr \<Rightarrow> c = 1 \<and> tr = confirm_start question
         | other \<Rightarrow> session_released (state_of other)"
proof -
  from confirm_ended [OF assms]
  obtain k where h: "confirm_handleKey k (confirm_start question) = confirm question keys"
    by blast
  have "session_released (confirm_start question @ [Write w, RemoveListener, SetRawMode False, Pause])" for w
    using confirm_start_open [of question]
    by (simp add: session_open_def session_released_def raw_mode_def raw_mode_from_append)
  then show ?thesis
    unfolding h [symmetric] using assms [unfolded h [symmetric]]
    by (auto simp: confirm_handleKey_def cleanup_def split: if_splits)
qed

text \<open>
  Claim C3, as the specification states it, fails for the confirm prompt: its handler
  calls \<^verbatim>\<open>process.exit(1)\<close> on the interrupt without writing anything, so the
  show-cursor sequence is not emitted (the confirm prompt never hides the cursor). With
  the question \<^verbatim>\<open>main\<close> asks, the interrupt as first key exits with status 1 and the
  trace is that of the start, with no write of the show-cursor sequence in it.
\<close>

theorem interrupt_confirm_counterexample:
  "exit_code (confirm stage_question [KEY_INTERRUPT]) = Some 1
   \<and> state_of (confirm stage_question [KEY_INTERRUPT]) = confirm_start stage_question
   \<and> Write SHOW_CURSOR \<notin> set (state_of (confirm stage_question [KEY_INTERRUPT]))"
  by code_simp

text \<open>
  Claim C3, amended. In the multi-select prompt, an interrupt arriving at any point of the
  key loop (after any keys that left the prompt pending) writes the show-cursor sequence
  \<open>ESC [ ? 2 5 h\<close> as the last output and ends the process with status 1, and every run
  that exits does so. In the confirm prompt, an interrupt at any point of the key loop ends
  the process with status 1 and writes nothing: the trace is still that of the start.
\<close>

theorem interrupt_exits:
  "(is_pending (multiselect options keys) \<longrightarrow>
      exit_code (multiselect options (keys @ [KEY_INTERRUPT])) = Some 1
    \<and> out (state_of (multiselect options (keys @ [KEY_INTERRUPT])))
        = out (state_of (multiselect options keys)) @ [Write SHOW_CURSOR])
   \<and> (exit_code (multiselect options' keys') = Some c \<longrightarrow>
        c = 1 \<and> last (out (state_of (multiselect options' keys'))) = Write SHOW_CURSOR)
   \<and> (is_pending (confirm question ckeys) \<longrightarrow>
        exit_code (confirm question (ckeys @ [KEY_INTERRUPT])) = Some 1
      \<and> state_of (confirm question (ckeys @ [KEY_INTERRUPT])) = confirm_start question)
   \<and> (exit_code (confirm question' ckeys') = Some c' \<longrightarrow>
        c' = 1 \<and> state_of (confirm question' ckeys') = confirm_start question')"
proof (intro conjI impI)
  assume p: "is_pending (multiselect options keys)"
  then have "multiselect options (keys @ [KEY_INTERRUPT])
      = Exited 1 (state_of (multiselect options keys)
          \<lparr>out := out (state_of (multiselect options keys)) @ [Write SHOW_CURSOR]\<rparr>)"
    by (cases "multiselect options keys")
       (simp_all add: multiselect_def run_keys_append handleKey_interrupt)
  then show "exit_code (multiselect options (keys @ [KEY_INTERRUPT])) = Some 1"
    and "out (state_of (multiselect options (keys @ [KEY_INTERRUPT])))
        = out (state_of (multiselect options keys)) @ [Write SHOW_CURSOR]"
    by simp_all
next
  assume e: "exit_code (multiselect options' keys') = Some c"
  then have "\<not> is_pending (multiselect options' keys')"
    by (cases "multiselect options' keys'") auto
  from ended_trace [OF this] e
  show "c = 1" and "last (out (state_of (multiselect options' keys'))) = Write SHOW_CURSOR"
    by (auto simp: exit_code_Some split: outcome.splits)
next
  assume p: "is_pending (confirm question ckeys)"
  with confirm_pending [OF p]
  have "confirm question (ckeys @ [KEY_INTERRUPT]) = Exited 1 (confirm_start question)"
    by (cases "confirm question ckeys")
       (simp_all add: confirm_def run_keys_append confirm_handleKey_def)
  then show "exit_code (confirm question (ckeys @ [KEY_INTERRUPT])) = Some 1"
    and "state_of (confirm question (ckeys @ [KEY_INTERRUPT])) = confirm_start question"
    by simp_all
next
  assume e: "exit_code (confirm question' ckeys') = Some c'"
  then have "\<not> is_pending (confirm question' ckeys')"
    by (cases "confirm question' ckeys'") auto
  from confirm_ended_trace [OF this] e
  show "c' = 1" and "state_of (confirm question' ckeys') = confirm_start question'"
    by (auto simp: exit_code_Some split: outcome.splits)
qed

theorem interrupt_exits_witness:
  "is_pending (multiselect choices [KEY_DOWN, KEY_SPACE])
   \<and> exit_code (multiselect choices ([KEY_DOWN, KEY_SPACE] @ [KEY_INTERRUPT])) = Some 1
   \<and> last (out (state_of (multiselect choices ([KEY_DOWN, KEY_SPACE] @ [KEY_INTERRUPT])))) = Write SHOW_CURSOR
   \<and> is_pending (confirm stage_question [''x''])
   \<and> exit_code (confirm stage_question ([''x''] @ [KEY_INTERRUPT])) = Some 1
   \<and> state_of (confirm stage_question ([''x''] @ [KEY_INTERRUPT])) = confirm_start stage_question"
proof -
  have p1: "is_pending (multiselect choices [KEY_DOWN, KEY_SPACE])"
    by code_simp
  have p2: "is_pending (confirm stage_question [''x''])"
    by code_simp
  from interrupt_exits [of choices "[KEY_DOWN, KEY_SPACE]"
      choices "[KEY_DOWN, KEY_SPACE] @ [KEY_INTERRUPT]" 1
      stage_question "[''x'']" stage_question "[''x''] @ [KEY_INTERRUPT]" 1]
  show ?thesis
    using p1 p2 by simp
qed






end
